theory Spec2Isabelle
  imports Complex_Main "HOL-Library.Word"
begin

section \<open>The random-data handler of \<open>main.go\<close>\<close>

text \<open>
  The handler \<open>ServeHTTP\<close> of \<open>src/main.go\<close> reads the query parameters \<open>size\<close> and
  \<open>buffer\<close>, opens \<open>/dev/urandom\<close> and copies \<open>size\<close> bytes to the response through a
  buffer of \<open>buffer\<close> bytes.

  Go's \<open>int\<close> is taken to be 64 bits wide (the manifests run the server on 64-bit Linux),
  so \<open>int(value)\<close> of an \<open>int64\<close> is the identity. Integers are modelled as \<open>int\<close>: the
  only arithmetic of the handler is \<open>pendingSize -= readSize\<close> with
  \<open>0 \<le> readSize \<le> pendingSize\<close>, which cannot overflow, and the range of \<open>int64\<close> is
  enforced where the values enter, in \<open>ParseInt\<close>.

  The logger is left out: its calls have no influence on the control flow. Which
  \<open>return\<close> (or panic) ended the handler is recorded in an \<open>outcome\<close> instead, one
  constructor for each error message of the source.
\<close>

subsection \<open>\<open>strconv.ParseInt(s, 10, 64)\<close>\<close>

datatype strconv_error = ErrSyntax | ErrRange

definition is_digit :: "char \<Rightarrow> bool" where
  "is_digit c = (48 \<le> (of_char c :: nat) \<and> (of_char c :: nat) \<le> 57)"

definition digit_val :: "char \<Rightarrow> nat" where
  "digit_val c = of_char c - 48"

text \<open>
  The loop of \<open>strconv.ParseUint\<close> for base 10 and 64 bits. A character that is not a
  decimal digit is a syntax error (letters are digits of a larger base, and the underscore is
  only accepted for base 0). \<open>n \<ge> cutoff\<close> is the test that \<open>n * 10\<close> overflows
  \<open>uint64\<close>; the test \<open>n1 < n || n1 > maxVal\<close> of the source, on wrapping 64-bit numbers,
  is \<open>n * 10 + d > maxVal\<close> on unbounded ones.
\<close>

definition maxVal :: nat where
  "maxVal = 2 ^ 64 - 1"

definition cutoff :: nat where
  "cutoff = maxVal div 10 + 1"

fun ParseUint_loop :: "nat \<Rightarrow> string \<Rightarrow> strconv_error + nat" where
  "ParseUint_loop n [] = Inr n"
| "ParseUint_loop n (c # cs) =
     (if \<not> is_digit c then Inl ErrSyntax
      else if n \<ge> cutoff then Inl ErrRange
      else if n * 10 + digit_val c > maxVal then Inl ErrRange
      else ParseUint_loop (n * 10 + digit_val c) cs)"

definition ParseUint :: "string \<Rightarrow> strconv_error + nat" where
  "ParseUint s = (if s = [] then Inl ErrSyntax else ParseUint_loop 0 s)"

text \<open>
  \<open>ParseInt\<close> strips one sign, parses the rest as unsigned and checks the range of
  \<open>int64\<close>. A range error of \<open>ParseUint\<close> stays a range error.
\<close>

definition ParseInt :: "string \<Rightarrow> strconv_error + int" where
  "ParseInt s =
     (if s = [] then Inl ErrSyntax
      else
        let neg = (hd s = CHR ''-'');
            s1 = (if hd s = CHR ''+'' \<or> hd s = CHR ''-'' then tl s else s)
        in case ParseUint s1 of
             Inl e \<Rightarrow> Inl e
           | Inr un \<Rightarrow>
               if \<not> neg \<and> un \<ge> 2 ^ 63 then Inl ErrRange
               else if neg \<and> un > 2 ^ 63 then Inl ErrRange
               else Inr (if neg then - int un else int un))"

subsection \<open>The request\<close>

text \<open>
  \<open>r.URL.Query()\<close> is a \<open>url.Values\<close>, a map from a key to the list of its values;
  \<open>Get\<close> returns the first value of the key, and the empty string when there is none.
\<close>

type_synonym Values = "string \<rightharpoonup> string list"

record request =
  Method :: string
  Path :: string
  query :: Values

definition Get :: "Values \<Rightarrow> string \<Rightarrow> string" where
  "Get v key = (case v key of None \<Rightarrow> [] | Some [] \<Rightarrow> [] | Some (x # _) \<Rightarrow> x)"

definition defaultDataSize :: int where
  "defaultDataSize = 1 * 2 ^ 30"

definition defaultBufferSize :: int where
  "defaultBufferSize = 32 * 2 ^ 10"

text \<open>
  Lines 46--60 and 67--81 of the source are the same code for the two parameters: the
  default, replaced by the parsed value when the text is not empty.
\<close>

definition param :: "request \<Rightarrow> string \<Rightarrow> int \<Rightarrow> strconv_error + int" where
  "param r key dflt =
     (let text = Get (query r) key
      in if text \<noteq> [] then ParseInt text else Inr dflt)"

subsection \<open>The environment\<close>

type_synonym byte = "8 word"

text \<open>
  What the handler does not decide itself: whether \<open>/dev/urandom\<close> opens, what the
  \<open>k\<close>-th \<open>Read\<close> of the file produces when asked for \<open>n\<close> bytes (the bytes and whether an
  error is returned), and how many bytes the \<open>k\<close>-th \<open>Write\<close> of the response accepts
  (and whether it returns an error).
\<close>

record env =
  open_ok :: bool
  src_read :: "nat \<Rightarrow> nat \<Rightarrow> byte list \<times> bool"
  dst_write :: "nat \<Rightarrow> byte list \<Rightarrow> nat \<times> bool"

text \<open>
  \<open>dataFile.Read(p)\<close>: the bytes read overwrite the front of \<open>p\<close>, at most \<open>len(p)\<close> of
  them. An \<open>os.File\<close> returns \<open>0, nil\<close> for an empty \<open>p\<close> without reading. The result is
  the slice after the call, \<open>n\<close> and whether \<open>err != nil\<close>.
\<close>

definition file_Read :: "env \<Rightarrow> nat \<Rightarrow> byte list \<Rightarrow> byte list \<times> int \<times> bool" where
  "file_Read e k p =
     (if p = [] then (p, 0, False)
      else case src_read e k (length p) of
             (d, err) \<Rightarrow> (take (length p) d @ drop (length d) p, int (min (length d) (length p)), err))"

text \<open>
  \<open>w.Write(p)\<close>: the response accepts a prefix of \<open>p\<close>. The response writers of
  \<open>net/http\<close> return \<open>0, nil\<close> for an empty \<open>p\<close>. The result is the bytes accepted,
  \<open>n\<close> and whether \<open>err != nil\<close>.
\<close>

definition resp_Write :: "env \<Rightarrow> nat \<Rightarrow> byte list \<Rightarrow> byte list \<times> int \<times> bool" where
  "resp_Write e k p =
     (if p = [] then ([], 0, False)
      else case dst_write e k p of
             (n, err) \<Rightarrow> (take n p, int (min n (length p)), err))"

text \<open>
  \<open>make([]byte, n)\<close> (\<open>runtime.makeslice\<close>) panics for a negative length and for
  one above the largest allocation of the runtime (\<open>maxAlloc\<close>, \<open>2 ^ 48\<close> bytes on
  64-bit Linux); \<open>None\<close> is the panic. A machine that runs out of memory below that
  bound is not modelled.
\<close>

definition maxAlloc :: int where
  "maxAlloc = 2 ^ 48"

definition makeslice :: "int \<Rightarrow> byte list option" where
  "makeslice n = (if n < 0 \<or> n > maxAlloc then None else Some (replicate (nat n) 0))"

subsection \<open>The state of one request\<close>

datatype outcome =
    InvalidSizeParameter
  | InvalidBufferParameter
  | SourceUnavailable
  | ReadFailure
  | ShortRead
  | WriteFailure
  | ShortWrite
  | Completed
  | Panicked

text \<open>
  The response (\<open>status\<close>, \<open>headers\<close>, \<open>body\<close>), the calls made on the file (\<open>opened\<close>,
  \<open>closed\<close>, the sizes of the \<open>reads\<close>) and on the response (the slices of the
  \<open>writes\<close>), and the values the variable \<open>pendingSize\<close> has taken, oldest first.
\<close>

record state =
  status :: "nat option"
  headers :: "(string \<times> string) list"
  body :: "byte list"
  opened :: nat
  closed :: nat
  reads :: "int list"
  writes :: "byte list list"
  pending :: "int list"

definition start :: state where
  "start = \<lparr>status = None, headers = [], body = [], opened = 0, closed = 0,
            reads = [], writes = [], pending = []\<rparr>"

definition WriteHeader :: "nat \<Rightarrow> state \<Rightarrow> state" where
  "WriteHeader code s = (if status s = None then s\<lparr>status := Some code\<rparr> else s)"

definition Header_Set :: "string \<Rightarrow> string \<Rightarrow> state \<Rightarrow> state" where
  "Header_Set k v s = s\<lparr>headers := (k, v) # filter (\<lambda>kv. fst kv \<noteq> k) (headers s)\<rparr>"

definition Close :: "outcome \<times> state \<Rightarrow> outcome \<times> state" where
  "Close r = (fst r, (snd r)\<lparr>closed := closed (snd r) + 1\<rparr>)"

subsection \<open>The copy loop\<close>

text \<open>
  One pass through the body of the loop (lines 113--154), entered with
  \<open>pendingSize > 0\<close>: either the handler ends (\<open>Inl\<close>) or the loop goes on with the
  buffer and the new \<open>pendingSize\<close> (\<open>Inr\<close>). \<open>readBuffer\<close> is a slice of \<open>dataBuffer\<close>,
  so what is read into it is in \<open>dataBuffer\<close> too; the slice expression panics when its
  bound is outside the buffer.
\<close>

definition iteration ::
  "env \<Rightarrow> int \<Rightarrow> byte list \<Rightarrow> int \<Rightarrow> state \<Rightarrow> (outcome \<times> state) + (byte list \<times> int \<times> state)" where
  "iteration e bufferSize dataBuffer pendingSize s =
     (let readSize = (if pendingSize > bufferSize then bufferSize else pendingSize)
      in if readSize < 0 \<or> readSize > int (length dataBuffer) then Inl (Panicked, s)
         else
           case file_Read e (length (reads s)) (take (nat readSize) dataBuffer) of
             (readBuffer, n, err) \<Rightarrow>
               let s1 = s\<lparr>reads := reads s @ [readSize]\<rparr>
               in if err then Inl (ReadFailure, s1)
                  else if n \<noteq> int (length readBuffer) then Inl (ShortRead, s1)
                  else
                    case resp_Write e (length (writes s1)) readBuffer of
                      (accepted, m, werr) \<Rightarrow>
                        let s2 = s1\<lparr>writes := writes s1 @ [readBuffer],
                                     body := body s1 @ accepted\<rparr>
                        in if werr then Inl (WriteFailure, s2)
                           else if m \<noteq> int (length readBuffer) then Inl (ShortWrite, s2)
                           else Inr (readBuffer @ drop (nat readSize) dataBuffer,
                                     pendingSize - readSize,
                                     s2\<lparr>pending := pending s2 @ [pendingSize - readSize]\<rparr>))"

text \<open>
  The loop \<open>for pendingSize > 0\<close>. It need not end, so it is a partial function:
  \<open>None\<close> is a loop that runs forever.
\<close>

partial_function (option) copy_loop ::
  "env \<Rightarrow> int \<Rightarrow> byte list \<Rightarrow> int \<Rightarrow> state \<Rightarrow> (outcome \<times> state) option" where
  "copy_loop e bufferSize dataBuffer pendingSize s =
     (if pendingSize > 0 then
        (case iteration e bufferSize dataBuffer pendingSize s of
           Inl r \<Rightarrow> Some r
         | Inr (dataBuffer', pendingSize', s') \<Rightarrow> copy_loop e bufferSize dataBuffer' pendingSize' s')
      else Some (Completed, s))"

subsection \<open>The handler\<close>

text \<open>
  Lines 107--166, with the file open: the header and the status, the buffer, the loop.
\<close>

definition send :: "env \<Rightarrow> int \<Rightarrow> int \<Rightarrow> state \<Rightarrow> (outcome \<times> state) option" where
  "send e dataSize bufferSize s =
     (let s1 = WriteHeader 200 (Header_Set ''Content-Type'' ''application/octet-stream'' s)
      in case makeslice bufferSize of
           None \<Rightarrow> Some (Panicked, s1)
         | Some dataBuffer \<Rightarrow>
             copy_loop e bufferSize dataBuffer dataSize (s1\<lparr>pending := pending s1 @ [dataSize]\<rparr>))"

text \<open>
  The deferred function closes the file when \<open>send\<close> returns and when it panics; when the
  loop runs forever, nothing is closed and the handler does not return (\<open>None\<close>).
\<close>

definition ServeHTTP :: "env \<Rightarrow> request \<Rightarrow> (outcome \<times> state) option" where
  "ServeHTTP e r =
     (case param r ''size'' defaultDataSize of
        Inl _ \<Rightarrow> Some (InvalidSizeParameter, WriteHeader 400 start)
      | Inr dataSize \<Rightarrow>
          (case param r ''buffer'' defaultBufferSize of
             Inl _ \<Rightarrow> Some (InvalidBufferParameter, WriteHeader 400 start)
           | Inr bufferSize \<Rightarrow>
               if \<not> open_ok e then Some (SourceUnavailable, WriteHeader 500 start)
               else map_option Close (send e dataSize bufferSize (start\<lparr>opened := 1\<rparr>))))"

subsection \<open>Notions of the specification\<close>

text \<open>
  A parameter is present when the query has at least one value for its key; its value is
  what \<open>Get\<close> returns, the first one.
\<close>

definition present :: "request \<Rightarrow> string \<Rightarrow> bool" where
  "present r key = (case query r key of None \<Rightarrow> False | Some vs \<Rightarrow> vs \<noteq> [])"

text \<open>
  A base-10 integer, as text: an optional sign and then one decimal digit or more.
\<close>

definition is_base10_integer :: "string \<Rightarrow> bool" where
  "is_base10_integer s =
     (let ds = (if s \<noteq> [] \<and> (hd s = CHR ''+'' \<or> hd s = CHR ''-'') then tl s else s)
      in ds \<noteq> [] \<and> list_all is_digit ds)"

text \<open>
  The \<open>k\<close>-th read, asked for \<open>n\<close> bytes, succeeds in full: no error and \<open>n\<close> bytes.
  The \<open>k\<close>-th write of the slice \<open>p\<close> succeeds in full: no error and all of \<open>p\<close> accepted.
\<close>

definition read_full :: "env \<Rightarrow> nat \<Rightarrow> nat \<Rightarrow> bool" where
  "read_full e k n = (case src_read e k n of (d, err) \<Rightarrow> \<not> err \<and> n \<le> length d)"

definition write_full :: "env \<Rightarrow> nat \<Rightarrow> byte list \<Rightarrow> bool" where
  "write_full e k p = (case dst_write e k p of (n, err) \<Rightarrow> \<not> err \<and> length p \<le> n)"

definition io_ok :: "env \<Rightarrow> bool" where
  "io_ok e = ((\<forall>k n. read_full e k n) \<and> (\<forall>k p. write_full e k p))"

text \<open>
  The chunks of a transfer of \<open>S\<close> bytes through a buffer of \<open>B\<close>: \<open>S div B\<close> chunks of
  \<open>B\<close> bytes, and one of \<open>S mod B\<close> bytes when that is not zero.
\<close>

definition chunks :: "int \<Rightarrow> int \<Rightarrow> int list" where
  "chunks B S =
     (if S \<le> 0 then []
      else replicate (nat (S div B)) B @ (if S mod B = 0 then [] else [S mod B]))"

text \<open>
  The values of \<open>pendingSize\<close> from one test of the loop on (\<open>ps\<close>) against the sizes of
  the reads made from there (\<open>rs\<close>): every pass reads \<open>min p B\<close> bytes and goes on with
  \<open>p - min p B\<close>; the last pass may have ended the handler after its read.
\<close>

fun countdown :: "int \<Rightarrow> int list \<Rightarrow> int list \<Rightarrow> bool" where
  "countdown B [] rs = (rs = [])"
| "countdown B [p] rs = (rs = [] \<or> (0 < p \<and> rs = [min p B]))"
| "countdown B (p # q # ps) [] = False"
| "countdown B (p # q # ps) (r # rs) =
     (0 < p \<and> r = min p B \<and> q = p - r \<and> countdown B (q # ps) rs)"

text \<open>The state in which the loop is entered, with \<open>dataSize\<close> bytes to send.\<close>

definition entered :: "int \<Rightarrow> state" where
  "entered dataSize =
     \<lparr>status = Some 200, headers = [(''Content-Type'', ''application/octet-stream'')],
      body = [], opened = 1, closed = 0, reads = [], writes = [], pending = [dataSize]\<rparr>"

text \<open>A request with the given values of \<open>size\<close> and \<open>buffer\<close>, and no other parameter.\<close>

definition req :: "string \<Rightarrow> string \<Rightarrow> request" where
  "req sz bf =
     \<lparr>Method = ''GET'', Path = ''/'',
      query = [''size'' \<mapsto> [sz], ''buffer'' \<mapsto> [bf]]\<rparr>"

text \<open>
  Three environments: one where everything succeeds (the source gives the byte 7), one
  where the file does not open, and one where the read number \<open>k\<close> (from 0) fails.
\<close>

definition env_ok :: env where
  "env_ok = \<lparr>open_ok = True, src_read = (\<lambda>k n. (replicate n 7, False)),
             dst_write = (\<lambda>k p. (length p, False))\<rparr>"

definition env_noopen :: env where
  "env_noopen = env_ok\<lparr>open_ok := False\<rparr>"

definition env_badread :: "nat \<Rightarrow> env" where
  "env_badread k = env_ok\<lparr>src_read := (\<lambda>j n. if j = k then ([], True) else (replicate n 7, False))\<rparr>"

section \<open>Properties of the model\<close>

subsection \<open>Parsing\<close>

lemma ParseUint_loop_digits: "ParseUint_loop n cs = Inr v \<Longrightarrow> list_all is_digit cs"
  by (induction cs arbitrary: n) (auto split: if_splits)

lemma ParseInt_is_base10: "ParseInt s = Inr v \<Longrightarrow> is_base10_integer s"
  by (auto simp: ParseInt_def ParseUint_def is_base10_integer_def Let_def
      split: if_splits sum.splits dest: ParseUint_loop_digits)

lemma ParseUint_loop_bound: "ParseUint_loop n cs = Inr v \<Longrightarrow> n \<le> maxVal \<Longrightarrow> v \<le> maxVal"
  by (induction cs arbitrary: n) (auto split: if_splits)

lemma ParseInt_range: "ParseInt s = Inr v \<Longrightarrow> - (2 ^ 63) \<le> v \<and> v < 2 ^ 63"
  by (auto simp: ParseInt_def Let_def split: if_splits sum.splits)

subsection \<open>One pass of the loop\<close>

lemma file_Read_length:
  "file_Read e k p = (rb, n, err) \<Longrightarrow> length rb = length p \<and> 0 \<le> n \<and> n \<le> int (length p)"
  by (cases "src_read e k (length p)") (auto simp: file_Read_def split: if_splits)

lemma file_Read_full:
  assumes "read_full e k (length p)"
  shows "\<exists>rb. length rb = length p \<and> file_Read e k p = (rb, int (length p), False)"
proof (cases "src_read e k (length p)")
  case (Pair d err)
  with assms have "\<not> err" "length p \<le> length d"
    by (simp_all add: read_full_def)
  with Pair show ?thesis
    by (simp add: file_Read_def)
qed

lemma file_Read_bad:
  assumes "\<not> read_full e k (length p)" "p \<noteq> []" "file_Read e k p = (rb, n, err)"
  shows "err \<or> n \<noteq> int (length rb)"
proof (cases "src_read e k (length p)")
  case (Pair d err')
  with assms show ?thesis
    by (auto simp: file_Read_def read_full_def)
qed

lemma resp_Write_full:
  assumes "write_full e k p"
  shows "resp_Write e k p = (p, int (length p), False)"
proof (cases "dst_write e k p")
  case (Pair n err)
  with assms have "\<not> err" "length p \<le> n"
    by (simp_all add: write_full_def)
  with Pair show ?thesis
    by (simp add: resp_Write_def)
qed

lemma resp_Write_prefix:
  "resp_Write e k p = (a, m, err) \<Longrightarrow> a = take (nat m) p \<and> 0 \<le> m \<and> m \<le> int (length p)"
  by (cases "dst_write e k p") (auto simp: resp_Write_def min_def split: if_splits)

lemma readSize_min: "(if B < P then B else P) = min P (B::int)"
  by (simp add: min_def)

lemma iteration_ok:
  assumes "0 < P" "0 \<le> B" "int (length buf) = B"
    and "read_full e (length (reads s)) (nat (min P B))"
    and "\<forall>p. length p = nat (min P B) \<longrightarrow> write_full e (length (writes s)) p"
  shows "\<exists>rb. length rb = nat (min P B) \<and>
           iteration e B buf P s =
             Inr (rb @ drop (nat (min P B)) buf, P - min P B,
                  s\<lparr>reads := reads s @ [min P B], writes := writes s @ [rb],
                    body := body s @ rb, pending := pending s @ [P - min P B]\<rparr>)"
proof -
  define r where "r = min P B"
  have r: "0 \<le> r" "r \<le> int (length buf)"
    using assms(1-3) by (simp_all add: r_def)
  then have len: "length (take (nat r) buf) = nat r"
    by simp
  from assms(4) obtain rb where rb: "length rb = nat r"
    "file_Read e (length (reads s)) (take (nat r) buf) = (rb, r, False)"
    using file_Read_full [of e "length (reads s)" "take (nat r) buf"] r len
    by (auto simp: r_def)
  from assms(5) rb(1) have "write_full e (length (writes s)) rb"
    by (simp add: r_def)
  then have w: "resp_Write e (length (writes s)) rb = (rb, r, False)"
    using resp_Write_full [of e "length (writes s)" rb] rb(1) r by simp
  have "iteration e B buf P s =
             Inr (rb @ drop (nat r) buf, P - r,
                  s\<lparr>reads := reads s @ [r], writes := writes s @ [rb],
                    body := body s @ rb, pending := pending s @ [P - r]\<rparr>)"
    using r rb w by (simp add: iteration_def Let_def readSize_min r_def [symmetric])
  with rb(1) show ?thesis
    unfolding r_def by blast
qed

lemma iteration_read_bad:
  assumes "0 < P" "1 \<le> B" "int (length buf) = B"
    and "\<not> read_full e (length (reads s)) (nat (min P B))"
  shows "\<exists>out. (out = ReadFailure \<or> out = ShortRead) \<and>
           iteration e B buf P s = Inl (out, s\<lparr>reads := reads s @ [min P B]\<rparr>)"
proof -
  define r where "r = min P B"
  have r: "0 < r" "r \<le> int (length buf)"
    using assms(1-3) by (simp_all add: r_def)
  then have len: "length (take (nat r) buf) = nat r" "take (nat r) buf \<noteq> []"
    by auto
  obtain rb n err where f: "file_Read e (length (reads s)) (take (nat r) buf) = (rb, n, err)"
    by (cases "file_Read e (length (reads s)) (take (nat r) buf)") auto
  with assms(4) len have "err \<or> n \<noteq> int (length rb)"
    using file_Read_bad [of e "length (reads s)" "take (nat r) buf" rb n err]
    by (simp add: r_def)
  with r f show ?thesis
    by (auto simp: iteration_def Let_def readSize_min r_def [symmetric])
qed

lemma iteration_Inr:
  assumes "iteration e B buf P s = Inr (buf', P', s')"
  shows "P' = P - min P B \<and> 0 \<le> min P B \<and> length buf' = length buf \<and>
         reads s' = reads s @ [min P B] \<and> pending s' = pending s @ [P'] \<and>
         (\<exists>rb. length rb = nat (min P B) \<and> writes s' = writes s @ [rb] \<and> body s' = body s @ rb) \<and>
         status s' = status s \<and> headers s' = headers s \<and>
         opened s' = opened s \<and> closed s' = closed s"
proof -
  define r where "r = min P B"
  obtain rb n err where f: "file_Read e (length (reads s)) (take (nat r) buf) = (rb, n, err)"
    by (cases "file_Read e (length (reads s)) (take (nat r) buf)") auto
  obtain a m werr where w: "resp_Write e (length (writes s)) rb = (a, m, werr)"
    by (cases "resp_Write e (length (writes s)) rb") auto
  from assms have r: "0 \<le> r" "r \<le> int (length buf)"
    by (auto simp: iteration_def Let_def readSize_min r_def [symmetric] split: if_splits)
  with assms f w have ok: "\<not> err" "n = int (length rb)" "\<not> werr" "m = int (length rb)"
    by (auto simp: iteration_def Let_def readSize_min r_def [symmetric] split: if_splits)
  from f r have lrb: "length rb = nat r"
    using file_Read_length [OF f] by simp
  from w ok have a: "a = rb"
    using resp_Write_prefix [OF w] by simp
  from assms r f w ok a have
    "buf' = rb @ drop (nat r) buf" "P' = P - r"
    "s' = s\<lparr>reads := reads s @ [r], writes := writes s @ [rb],
            body := body s @ rb, pending := pending s @ [P - r]\<rparr>"
    by (auto simp: iteration_def Let_def readSize_min r_def [symmetric])
  with r lrb show ?thesis
    unfolding r_def [symmetric] by auto
qed

lemma iteration_Inl:
  assumes "iteration e B buf P s = Inl (out, s')"
  shows "out \<noteq> Completed \<and> pending s' = pending s \<and>
         status s' = status s \<and> headers s' = headers s \<and>
         opened s' = opened s \<and> closed s' = closed s \<and>
         (reads s' = reads s \<or> (reads s' = reads s @ [min P B]))"
proof -
  define r where "r = min P B"
  obtain rb n err where f: "file_Read e (length (reads s)) (take (nat r) buf) = (rb, n, err)"
    by (cases "file_Read e (length (reads s)) (take (nat r) buf)") auto
  obtain a m werr where w: "resp_Write e (length (writes s)) rb = (a, m, werr)"
    by (cases "resp_Write e (length (writes s)) rb") auto
  from assms f w show ?thesis
    unfolding r_def [symmetric]
    by (auto simp: iteration_def Let_def readSize_min r_def [symmetric] split: if_splits)
qed

subsection \<open>The loop\<close>

lemma copy_loop_done: "\<not> 0 < P \<Longrightarrow> copy_loop e B buf P s = Some (Completed, s)"
  by (subst copy_loop.simps) simp

lemma copy_loop_Inl:
  "0 < P \<Longrightarrow> iteration e B buf P s = Inl r \<Longrightarrow> copy_loop e B buf P s = Some r"
  by (subst copy_loop.simps) simp

lemma copy_loop_Inr:
  "0 < P \<Longrightarrow> iteration e B buf P s = Inr (buf', P', s') \<Longrightarrow>
   copy_loop e B buf P s = copy_loop e B buf' P' s'"
  by (subst copy_loop.simps) simp

lemma chunks_step:
  assumes "1 \<le> B" "0 < P"
  shows "chunks B P = min P B # chunks B (P - min P B)"
proof (cases "P < B")
  case True
  with assms show ?thesis
    by (simp add: chunks_def)
next
  case False
  define Q where "Q = P - B"
  with False have Q: "0 \<le> Q" "P = Q + B"
    by simp_all
  from assms(1) Q(1) have "0 \<le> Q div B"
    by (simp add: pos_imp_zdiv_nonneg_iff)
  then have "nat (Q div B + 1) = Suc (nat (Q div B))"
    by simp
  with assms Q show ?thesis
    by (simp add: chunks_def min_def)
qed

lemma copy_loop_ok:
  assumes "io_ok e" "1 \<le> B"
  shows "int (length buf) = B \<Longrightarrow>
         \<exists>s' ws. copy_loop e B buf P s = Some (Completed, s') \<and>
           reads s' = reads s @ chunks B P \<and>
           writes s' = writes s @ ws \<and> map (\<lambda>w. int (length w)) ws = chunks B P \<and>
           body s' = body s @ concat ws \<and>
           int (length (body s')) = int (length (body s)) + max 0 P"
proof (induction "nat P" arbitrary: P buf s rule: less_induct)
  case less
  show ?case
  proof (cases "0 < P")
    case False
    then have "copy_loop e B buf P s = Some (Completed, s)"
      by (rule copy_loop_done)
    with False show ?thesis
      by (intro exI [of _ s] exI [of _ "[]"]) (simp add: chunks_def)
  next
    case True
    define r where "r = min P B"
    from assms(1) have "read_full e (length (reads s)) (nat r)"
      and "\<forall>p. length p = nat r \<longrightarrow> write_full e (length (writes s)) p"
      by (simp_all add: io_ok_def)
    with True assms(2) less.prems obtain rb where rb: "length rb = nat r"
      "iteration e B buf P s =
         Inr (rb @ drop (nat r) buf, P - r,
              s\<lparr>reads := reads s @ [r], writes := writes s @ [rb],
                body := body s @ rb, pending := pending s @ [P - r]\<rparr>)"
      using iteration_ok [of P B buf e s] unfolding r_def by auto
    define s1 where "s1 = s\<lparr>reads := reads s @ [r], writes := writes s @ [rb],
                body := body s @ rb, pending := pending s @ [P - r]\<rparr>"
    define buf' where "buf' = rb @ drop (nat r) buf"
    from True assms(2) have r: "1 \<le> r" "r \<le> P" "r \<le> B"
      by (simp_all add: r_def)
    with less.prems rb(1) have len: "int (length buf') = B"
      by (simp add: buf'_def)
    from r have "nat (P - r) < nat P"
      by simp
    from less.hyps [OF this len, of s1] obtain s' ws where
      ih: "copy_loop e B buf' (P - r) s1 = Some (Completed, s')"
        "reads s' = reads s1 @ chunks B (P - r)"
        "writes s' = writes s1 @ ws" "map (\<lambda>w. int (length w)) ws = chunks B (P - r)"
        "body s' = body s1 @ concat ws"
        "int (length (body s')) = int (length (body s1)) + max 0 (P - r)"
      by blast
    from True rb(2) ih(1) have run: "copy_loop e B buf P s = Some (Completed, s')"
      by (simp add: copy_loop_Inr buf'_def s1_def)
    from assms(2) True have ch: "chunks B P = r # chunks B (P - r)"
      unfolding r_def by (rule chunks_step)
    from run ih rb(1) r ch show ?thesis
      by (intro exI [of _ s'] exI [of _ "rb # ws"]) (simp add: s1_def)
  qed
qed

lemma iteration_zero:
  "0 < P \<Longrightarrow> iteration e 0 [] P s =
     Inr ([], P, s\<lparr>reads := reads s @ [0], writes := writes s @ [[]],
                    body := body s, pending := pending s @ [P]\<rparr>)"
  by (simp add: iteration_def file_Read_def resp_Write_def Let_def)

lemma copy_loop_zero_Some:
  assumes "copy_loop e B buf P s = Some y"
  shows "\<not> (B = 0 \<and> buf = [] \<and> 0 < P)"
proof (rule copy_loop.raw_induct
    [where P = "\<lambda>e B buf P s y. \<not> (B = 0 \<and> buf = [] \<and> 0 < P)", OF _ assms])
  fix f :: "env \<Rightarrow> int \<Rightarrow> byte list \<Rightarrow> int \<Rightarrow> state \<Rightarrow> (outcome \<times> state) option"
  fix e B buf P s y
  assume ih: "\<And>e B buf P s y. f e B buf P s = Some y \<Longrightarrow> \<not> (B = 0 \<and> buf = [] \<and> 0 < P)"
    and body: "(if 0 < P then
        (case iteration e B buf P s of
           Inl r \<Rightarrow> Some r
         | Inr (dataBuffer', pendingSize', s') \<Rightarrow> f e B dataBuffer' pendingSize' s')
      else Some (Completed, s)) = Some y"
  show "\<not> (B = 0 \<and> buf = [] \<and> 0 < P)"
  proof
    assume z: "B = 0 \<and> buf = [] \<and> 0 < P"
    with body have "f e 0 [] P
        (s\<lparr>reads := reads s @ [0], writes := writes s @ [[]],
           body := body s, pending := pending s @ [P]\<rparr>) = Some y"
      by (simp add: iteration_zero)
    from ih [OF this] z show False
      by simp
  qed
qed

lemma copy_loop_zero: "0 < P \<Longrightarrow> copy_loop e 0 [] P s = None"
  using copy_loop_zero_Some [of e 0 "[]" P s] by (cases "copy_loop e 0 [] P s") auto

subsection \<open>The handler\<close>

lemma ParseInt_Nil: "ParseInt [] = Inl ErrSyntax"
  by (simp add: ParseInt_def)

lemma param_parsed: "ParseInt (Get (query r) key) = Inr v \<Longrightarrow> param r key d = Inr v"
  by (cases "Get (query r) key = []") (simp_all add: param_def ParseInt_Nil)

lemma ServeHTTP_entered:
  assumes "param r ''size'' defaultDataSize = Inr S"
    and "param r ''buffer'' defaultBufferSize = Inr B"
    and "open_ok e" "0 \<le> B" "B \<le> maxAlloc"
  shows "ServeHTTP e r = map_option Close (copy_loop e B (replicate (nat B) 0) S (entered S))"
  using assms
  by (simp add: ServeHTTP_def send_def makeslice_def entered_def start_def WriteHeader_def
      Header_Set_def)

lemma ServeHTTP_panic:
  assumes "param r ''size'' defaultDataSize = Inr S"
    and "param r ''buffer'' defaultBufferSize = Inr B"
    and "open_ok e" "B < 0 \<or> maxAlloc < B"
  shows "ServeHTTP e r = Some (Panicked, (entered S)\<lparr>closed := 1, pending := []\<rparr>)"
  using assms
  by (auto simp: ServeHTTP_def send_def makeslice_def entered_def start_def WriteHeader_def
      Header_Set_def Close_def)

lemma ServeHTTP_noopen:
  assumes "param r ''size'' defaultDataSize = Inr S"
    and "param r ''buffer'' defaultBufferSize = Inr B"
    and "\<not> open_ok e"
  shows "ServeHTTP e r = Some (SourceUnavailable, start\<lparr>status := Some 500\<rparr>)"
  using assms by (simp add: ServeHTTP_def start_def WriteHeader_def)

lemma ServeHTTP_bad_size:
  assumes "param r ''size'' defaultDataSize = Inl x"
  shows "ServeHTTP e r = Some (InvalidSizeParameter, start\<lparr>status := Some 400\<rparr>)"
  using assms by (simp add: ServeHTTP_def start_def WriteHeader_def)

lemma ServeHTTP_bad_buffer:
  assumes "param r ''size'' defaultDataSize = Inr S"
    and "param r ''buffer'' defaultBufferSize = Inl x"
  shows "ServeHTTP e r = Some (InvalidBufferParameter, start\<lparr>status := Some 400\<rparr>)"
  using assms by (simp add: ServeHTTP_def start_def WriteHeader_def)

subsection \<open>Concrete requests\<close>

lemma Get_req: "Get (query (req sz bf)) ''size'' = sz" "Get (query (req sz bf)) ''buffer'' = bf"
  by (simp_all add: req_def Get_def)

lemma param_req:
  "param (req sz bf) ''size'' d = (if sz \<noteq> [] then ParseInt sz else Inr d)"
  "param (req sz bf) ''buffer'' d = (if bf \<noteq> [] then ParseInt bf else Inr d)"
  by (simp_all add: param_def Get_req)

lemmas ParseInt_eval = ParseInt_def ParseUint_def is_digit_def digit_val_def maxVal_def cutoff_def

lemma ParseInt_examples:
  "ParseInt ''0'' = Inr 0" "ParseInt ''1'' = Inr 1" "ParseInt ''2'' = Inr 2"
  "ParseInt ''5'' = Inr 5" "ParseInt ''-1'' = Inr (- 1)" "ParseInt ''-2'' = Inr (- 2)"
  "ParseInt ''abc'' = Inl ErrSyntax"
  "ParseInt ''9223372036854775807'' = Inr 9223372036854775807"
  by (simp_all add: ParseInt_eval)

subsection \<open>Any run of the loop\<close>

lemma iteration_Inl_writes:
  assumes "iteration e B buf P s = Inl (out, s')"
  shows "writes s' = writes s \<or>
         (\<exists>rb. writes s' = writes s @ [rb] \<and> int (length rb) = min P B \<and>
               reads s' = reads s @ [min P B])"
proof -
  define r where "r = min P B"
  obtain rb n err where f: "file_Read e (length (reads s)) (take (nat r) buf) = (rb, n, err)"
    by (cases "file_Read e (length (reads s)) (take (nat r) buf)") auto
  obtain a m werr where w: "resp_Write e (length (writes s)) rb = (a, m, werr)"
    by (cases "resp_Write e (length (writes s)) rb") auto
  have "length rb = length (take (nat r) buf)"
    using file_Read_length [OF f] by simp
  with assms f w show ?thesis
    unfolding r_def [symmetric]
    by (auto simp: iteration_def Let_def readSize_min r_def [symmetric] split: if_splits)
qed

lemma copy_loop_run:
  assumes "1 \<le> B"
  shows "\<exists>out s' xs rs ws. copy_loop e B buf P s = Some (out, s') \<and>
           pending s' = pending s @ xs \<and> reads s' = reads s @ rs \<and>
           writes s' = writes s @ ws \<and>
           countdown B (P # xs) rs \<and>
           map (\<lambda>w. int (length w)) ws = take (length ws) rs \<and>
           (out = Completed \<longrightarrow>
              last (P # xs) \<le> 0 \<and> length xs = length rs \<and> length ws = length rs \<and>
              body s' = body s @ concat ws \<and>
              int (length (body s')) = int (length (body s)) + max 0 P) \<and>
           status s' = status s \<and> headers s' = headers s \<and>
           opened s' = opened s \<and> closed s' = closed s"
proof (induction "nat P" arbitrary: P buf s rule: less_induct)
  case less
  show ?case
  proof (cases "0 < P")
    case False
    then have "copy_loop e B buf P s = Some (Completed, s)"
      by (rule copy_loop_done)
    with False show ?thesis
      by - (rule exI [of _ Completed], rule exI [of _ s], rule exI [of _ "[]"], simp)
  next
    case True
    show ?thesis
    proof (cases "iteration e B buf P s")
      case (Inl r)
      obtain out s1 where r: "r = (out, s1)"
        by (cases r) auto
      from True Inl r have run: "copy_loop e B buf P s = Some (out, s1)"
        by (simp add: copy_loop_Inl)
      from Inl r have it: "out \<noteq> Completed" "pending s1 = pending s"
        "status s1 = status s" "headers s1 = headers s"
        "opened s1 = opened s" "closed s1 = closed s"
        "reads s1 = reads s \<or> reads s1 = reads s @ [min P B]"
        using iteration_Inl [of e B buf P s out s1] by simp_all
      from Inl r have "writes s1 = writes s \<or>
         (\<exists>rb. writes s1 = writes s @ [rb] \<and> int (length rb) = min P B \<and>
               reads s1 = reads s @ [min P B])"
        using iteration_Inl_writes [of e B buf P s out s1] by simp
      with it(7) obtain rs ws where rs: "reads s1 = reads s @ rs" "rs = [] \<or> rs = [min P B]"
        "writes s1 = writes s @ ws" "map (\<lambda>w. int (length w)) ws = take (length ws) rs"
        by auto
      with True have "countdown B [P] rs"
        by auto
      with run it rs(1,3,4) show ?thesis
        by - (rule exI [of _ out], rule exI [of _ s1], rule exI [of _ "[]"], rule exI [of _ rs], rule exI [of _ ws], simp)
    next
      case (Inr t)
      obtain buf' P' s1 where t: "t = (buf', P', s1)"
        by (cases t) auto
      from Inr t have it: "P' = P - min P B" "reads s1 = reads s @ [min P B]"
        "pending s1 = pending s @ [P']" "status s1 = status s" "headers s1 = headers s"
        "opened s1 = opened s" "closed s1 = closed s"
        using iteration_Inr [of e B buf P s buf' P' s1] by simp_all
      from Inr t obtain rb where rb: "length rb = nat (min P B)"
        "writes s1 = writes s @ [rb]" "body s1 = body s @ rb"
        using iteration_Inr [of e B buf P s buf' P' s1] by auto
      from True assms have m: "1 \<le> min P B" "min P B \<le> P"
        by simp_all
      with it(1) have "nat P' < nat P"
        by simp
      from less.hyps [OF this] obtain out s' xs rs ws where
        ih: "copy_loop e B buf' P' s1 = Some (out, s')"
          "pending s' = pending s1 @ xs" "reads s' = reads s1 @ rs"
          "writes s' = writes s1 @ ws"
          "countdown B (P' # xs) rs"
          "map (\<lambda>w. int (length w)) ws = take (length ws) rs"
          "out = Completed \<longrightarrow>
              last (P' # xs) \<le> 0 \<and> length xs = length rs \<and> length ws = length rs \<and>
              body s' = body s1 @ concat ws \<and>
              int (length (body s')) = int (length (body s1)) + max 0 P'"
          "status s' = status s1" "headers s' = headers s1"
          "opened s' = opened s1" "closed s' = closed s1"
        by blast
      from True Inr t ih(1) have run: "copy_loop e B buf P s = Some (out, s')"
        by (simp add: copy_loop_Inr)
      from True it(1) ih(5) have cd: "countdown B (P # P' # xs) (min P B # rs)"
        by simp
      from rb(1) m ih(6) have lens: "map (\<lambda>w. int (length w)) (rb # ws) =
          take (length (rb # ws)) (min P B # rs)"
        by simp
      from ih(7) rb it(1) m True have fin:
        "out = Completed \<longrightarrow>
              last (P # P' # xs) \<le> 0 \<and> length (P' # xs) = length (min P B # rs) \<and>
              length (rb # ws) = length (min P B # rs) \<and>
              body s' = body s @ concat (rb # ws) \<and>
              int (length (body s')) = int (length (body s)) + max 0 P"
        by auto
      from run it ih(2,3,4,8,9,10,11) rb(2) cd lens fin show ?thesis
        by - (rule exI [of _ out], rule exI [of _ s'], rule exI [of _ "P' # xs"], rule exI [of _ "min P B # rs"], rule exI [of _ "rb # ws"], auto)
    qed
  qed
qed

subsection \<open>The countdown, by position\<close>

lemma countdown_nth:
  "countdown B ps rs \<Longrightarrow> i < length rs \<Longrightarrow>
     i < length ps \<and> 0 < ps ! i \<and> rs ! i = min (ps ! i) B"
proof (induction B ps rs arbitrary: i rule: countdown.induct)
  case (4 B p q ps r rs)
  then show ?case
    by (cases i) auto
qed auto

lemma countdown_next:
  "countdown B ps rs \<Longrightarrow> Suc i < length ps \<Longrightarrow>
     i < length rs \<and> ps ! Suc i = ps ! i - rs ! i"
proof (induction B ps rs arbitrary: i rule: countdown.induct)
  case (4 B p q ps r rs)
  then show ?case
    by (cases i) auto
qed auto

lemma countdown_nonneg:
  "countdown B (p # ps) rs \<Longrightarrow> 0 \<le> p \<Longrightarrow> \<forall>q\<in>set ps. 0 \<le> q"
proof (induction ps arbitrary: p rs)
  case (Cons q ps)
  then show ?case
    by (cases rs) (auto simp: min_def split: if_splits)
qed simp

lemma countdown_chunks:
  "1 \<le> B \<Longrightarrow> countdown B (P # xs) rs \<Longrightarrow> length xs = length rs \<Longrightarrow>
   last (P # xs) \<le> 0 \<Longrightarrow> rs = chunks B P"
proof (induction xs arbitrary: P rs)
  case Nil
  then show ?case
    by (simp add: chunks_def)
next
  case (Cons q xs)
  then obtain r rs' where rs: "rs = r # rs'"
    by (cases rs) auto
  with Cons.prems have c: "0 < P" "r = min P B" "q = P - r" "countdown B (q # xs) rs'"
    by auto
  from Cons.prems rs c have "rs' = chunks B q"
    using Cons.IH [OF Cons.prems(1) c(4)] by simp
  with c rs Cons.prems(1) show ?case
    by (simp add: chunks_step)
qed

subsection \<open>The chunks\<close>

lemma length_chunks:
  assumes "1 \<le> B" "0 \<le> S"
  shows "int (length (chunks B S)) = \<lceil>real_of_int S / real_of_int B\<rceil>"
proof -
  from assms have "0 \<le> S div B"
    by (simp add: pos_imp_zdiv_nonneg_iff)
  with assms show ?thesis
    by (auto simp: chunks_def ceiling_divide_eq_div zdiv_zminus1_eq_if)
qed

lemma chunks_full: "Suc i < length (chunks B S) \<Longrightarrow> chunks B S ! i = B"
  by (auto simp: chunks_def nth_append split: if_splits)

lemma chunks_last:
  assumes "1 \<le> B" "chunks B S \<noteq> []"
  shows "last (chunks B S) = (if S mod B = 0 then B else S mod B)"
  using assms by (auto simp: chunks_def split: if_splits)

subsection \<open>Runs of the handler that enter the loop\<close>

lemma ServeHTTP_loop:
  assumes "param r ''size'' defaultDataSize = Inr S"
    and "param r ''buffer'' defaultBufferSize = Inr B"
    and "open_ok e" "1 \<le> B" "B \<le> maxAlloc"
  shows "\<exists>out s xs. ServeHTTP e r = Some (out, s) \<and>
           pending s = S # xs \<and> countdown B (S # xs) (reads s) \<and>
           map (\<lambda>w. int (length w)) (writes s) = take (length (writes s)) (reads s) \<and>
           (out = Completed \<longrightarrow>
              last (S # xs) \<le> 0 \<and> length xs = length (reads s) \<and>
              length (writes s) = length (reads s) \<and>
              body s = concat (writes s) \<and> int (length (body s)) = max 0 S) \<and>
           status s = Some 200 \<and>
           headers s = [(''Content-Type'', ''application/octet-stream'')] \<and>
           opened s = 1 \<and> closed s = 1"
proof -
  from assms have run: "ServeHTTP e r =
      map_option Close (copy_loop e B (replicate (nat B) 0) S (entered S))"
    by (simp add: ServeHTTP_entered)
  from copy_loop_run [OF assms(4), of e "replicate (nat B) 0" S "entered S"]
  obtain out s' xs rs ws where
    l: "copy_loop e B (replicate (nat B) 0) S (entered S) = Some (out, s')"
      "pending s' = pending (entered S) @ xs" "reads s' = reads (entered S) @ rs"
      "writes s' = writes (entered S) @ ws" "countdown B (S # xs) rs"
      "map (\<lambda>w. int (length w)) ws = take (length ws) rs"
      "out = Completed \<longrightarrow>
              last (S # xs) \<le> 0 \<and> length xs = length rs \<and> length ws = length rs \<and>
              body s' = body (entered S) @ concat ws \<and>
              int (length (body s')) = int (length (body (entered S))) + max 0 S"
      "status s' = status (entered S)" "headers s' = headers (entered S)"
      "opened s' = opened (entered S)" "closed s' = closed (entered S)"
    by blast
  from run l(1) have "ServeHTTP e r = Some (out, s'\<lparr>closed := closed s' + 1\<rparr>)"
    by (simp add: Close_def)
  with l(2-11) show ?thesis
    by - (rule exI [of _ out], rule exI [of _ "s'\<lparr>closed := closed s' + 1\<rparr>"],
        rule exI [of _ xs], auto simp: entered_def)
qed

lemma ServeHTTP_ok:
  assumes "param r ''size'' defaultDataSize = Inr S"
    and "param r ''buffer'' defaultBufferSize = Inr B"
    and "open_ok e" "1 \<le> B" "B \<le> maxAlloc" "io_ok e"
  shows "\<exists>s. ServeHTTP e r = Some (Completed, s)"
proof -
  from assms have run: "ServeHTTP e r =
      map_option Close (copy_loop e B (replicate (nat B) 0) S (entered S))"
    by (simp add: ServeHTTP_entered)
  from assms(4) have "int (length (replicate (nat B) (0::byte))) = B"
    by simp
  from copy_loop_ok [OF assms(6,4) this, of S "entered S"] run show ?thesis
    by (auto simp: Close_def)
qed

lemma io_ok_env_ok: "io_ok env_ok" "open_ok env_ok"
  by (simp_all add: io_ok_def read_full_def write_full_def env_ok_def)

lemma ServeHTTP_cases:
  assumes "param r ''size'' defaultDataSize = Inr S"
    and "param r ''buffer'' defaultBufferSize = Inr B" and "1 \<le> B"
  obtains (noopen) "\<not> open_ok e"
      "ServeHTTP e r = Some (SourceUnavailable, start\<lparr>status := Some 500\<rparr>)"
    | (panic) "open_ok e" "maxAlloc < B"
      "ServeHTTP e r = Some (Panicked, (entered S)\<lparr>closed := 1, pending := []\<rparr>)"
    | (loop) out s xs where "open_ok e" "B \<le> maxAlloc"
      "ServeHTTP e r = Some (out, s)" "pending s = S # xs"
      "countdown B (S # xs) (reads s)"
      "map (\<lambda>w. int (length w)) (writes s) = take (length (writes s)) (reads s)"
      "out = Completed \<longrightarrow>
         last (S # xs) \<le> 0 \<and> length xs = length (reads s) \<and>
         length (writes s) = length (reads s) \<and>
         body s = concat (writes s) \<and> int (length (body s)) = max 0 S"
      "status s = Some 200" "opened s = 1" "closed s = 1"
proof (cases "open_ok e")
  case False
  with assms show ?thesis
    by (intro noopen) (simp_all add: ServeHTTP_noopen)
next
  case True
  show ?thesis
  proof (cases "B \<le> maxAlloc")
    case False
    with True assms show ?thesis
      by (intro panic) (simp_all add: ServeHTTP_panic)
  next
    case le: True
    from ServeHTTP_loop [OF assms(1,2) True assms(3) le] True le show ?thesis
      by (elim exE conjE) (rule loop, assumption+)
  qed
qed

lemma replicate_byte_2: "replicate 2 (0::byte) = [0, 0]"
  by (simp add: eval_nat_numeral)

lemma countdown_less:
  "1 \<le> B \<Longrightarrow> countdown B ps rs \<Longrightarrow> Suc i < length ps \<Longrightarrow>
     0 < rs ! i \<and> ps ! Suc i < ps ! i"
  using countdown_next [of B ps rs i] countdown_nth [of B ps rs i] by auto


lemma copy_loop_returns: "1 \<le> B \<Longrightarrow> copy_loop e B buf P s \<noteq> None"
  using copy_loop_run [of B e buf P s] by auto

lemma copy_loop_read_fails:
  assumes "1 \<le> B"
  shows "int (length buf) = B \<Longrightarrow> int j * B < P \<Longrightarrow>
     (\<forall>i<j. read_full e (length (reads s) + i) (nat B)) \<Longrightarrow>
     (\<forall>i<j. \<forall>p. length p = nat B \<longrightarrow> write_full e (length (writes s) + i) p) \<Longrightarrow>
     \<not> read_full e (length (reads s) + j) (nat (min (P - int j * B) B)) \<Longrightarrow>
     \<exists>out s' ws. copy_loop e B buf P s = Some (out, s') \<and>
       (out = ReadFailure \<or> out = ShortRead) \<and>
       length (reads s') = length (reads s) + j + 1 \<and>
       writes s' = writes s @ ws \<and> length ws = j \<and> (\<forall>w\<in>set ws. int (length w) = B) \<and>
       body s' = body s @ concat ws \<and>
       status s' = status s \<and> headers s' = headers s \<and>
       opened s' = opened s \<and> closed s' = closed s"
proof (induction j arbitrary: buf P s)
  case 0
  then have P: "0 < P" and bad: "\<not> read_full e (length (reads s)) (nat (min P B))"
    by simp_all
  from iteration_read_bad [OF P assms 0(1) bad] obtain out where
    out: "out = ReadFailure \<or> out = ShortRead"
      "iteration e B buf P s = Inl (out, s\<lparr>reads := reads s @ [min P B]\<rparr>)"
    by blast
  from copy_loop_Inl [OF P out(2)] out(1) show ?case
    by - (rule exI [of _ out], rule exI [of _ "s\<lparr>reads := reads s @ [min P B]\<rparr>"],
        rule exI [of _ "[]"], simp)
next
  case (Suc j)
  from assms have nn: "0 \<le> int j * B"
    by simp
  from Suc.prems(2) have "int j * B + B < P"
    by (simp add: algebra_simps)
  with nn assms have P: "0 < P" "B < P" "int j * B < P - B"
    by linarith+
  then have m: "min P B = B"
    by simp
  from Suc.prems(3) have r0: "read_full e (length (reads s)) (nat (min P B))"
    unfolding m by (metis add.right_neutral zero_less_Suc)
  from Suc.prems(4) have w0: "\<forall>p. length p = nat (min P B) \<longrightarrow> write_full e (length (writes s)) p"
    unfolding m by (metis add.right_neutral zero_less_Suc)
  from assms have B0: "0 \<le> B"
    by simp
  from iteration_ok [OF P(1) B0 Suc.prems(1) r0 w0] obtain rb where
    rb: "length rb = nat B"
      "iteration e B buf P s =
         Inr (rb @ drop (nat B) buf, P - B,
              s\<lparr>reads := reads s @ [B], writes := writes s @ [rb],
                body := body s @ rb, pending := pending s @ [P - B]\<rparr>)"
    unfolding m by blast
  define s1 where "s1 = s\<lparr>reads := reads s @ [B], writes := writes s @ [rb],
                body := body s @ rb, pending := pending s @ [P - B]\<rparr>"
  define buf' where "buf' = rb @ drop (nat B) buf"
  from rb(1) Suc.prems(1) B0 have len: "int (length buf') = B"
    by (simp add: buf'_def)
  have rd: "\<forall>i<j. read_full e (length (reads s1) + i) (nat B)"
  proof (intro allI impI)
    fix i assume "i < j"
    then have "Suc i < Suc j"
      by simp
    with Suc.prems(3) have "read_full e (length (reads s) + Suc i) (nat B)"
      by blast
    then show "read_full e (length (reads s1) + i) (nat B)"
      by (simp add: s1_def)
  qed
  have wr: "\<forall>i<j. \<forall>p. length p = nat B \<longrightarrow> write_full e (length (writes s1) + i) p"
  proof (intro allI impI)
    fix i and p :: "byte list" assume "i < j" and p: "length p = nat B"
    then have "Suc i < Suc j"
      by simp
    with Suc.prems(4) p have "write_full e (length (writes s) + Suc i) p"
      by blast
    then show "write_full e (length (writes s1) + i) p"
      by (simp add: s1_def)
  qed
  have eq: "P - int (Suc j) * B = P - B - int j * B"
    by (simp add: algebra_simps)
  have idx: "length (reads s) + Suc j = length (reads s1) + j"
    by (simp add: s1_def)
  from Suc.prems(5) have bad:
    "\<not> read_full e (length (reads s1) + j) (nat (min (P - B - int j * B) B))"
    unfolding eq idx .
  from Suc.IH [OF len P(3) rd wr bad] obtain out s' ws where
    ih: "copy_loop e B buf' (P - B) s1 = Some (out, s')"
      "out = ReadFailure \<or> out = ShortRead"
      "length (reads s') = length (reads s1) + j + 1"
      "writes s' = writes s1 @ ws" "length ws = j" "\<forall>w\<in>set ws. int (length w) = B"
      "body s' = body s1 @ concat ws"
      "status s' = status s1" "headers s' = headers s1"
      "opened s' = opened s1" "closed s' = closed s1"
    by blast
  from copy_loop_Inr [OF P(1) rb(2)] ih(1) have run: "copy_loop e B buf P s = Some (out, s')"
    by (simp add: buf'_def s1_def)
  from run ih(2-11) rb(1) B0 show ?case
    by - (rule exI [of _ out], rule exI [of _ s'], rule exI [of _ "rb # ws"],
        auto simp: s1_def)
qed

lemma env_badread_io:
  "i \<noteq> k \<Longrightarrow> read_full (env_badread k) i n"
  "0 < n \<Longrightarrow> \<not> read_full (env_badread k) k n"
  "write_full (env_badread k) i p"
  "open_ok (env_badread k)"
  by (simp_all add: env_badread_def env_ok_def read_full_def write_full_def)

lemma param_invalid:
  assumes "Get (query r) key \<noteq> []" and "\<not> is_base10_integer (Get (query r) key)"
  shows "\<exists>x. param r key d = Inl x"
proof (cases "ParseInt (Get (query r) key)")
  case (Inl x)
  with assms(1) show ?thesis
    by (simp add: param_def)
next
  case (Inr v)
  with assms(2) show ?thesis
    by (simp add: ParseInt_is_base10)
qed

lemma param_valid:
  assumes "param r key d = Inr v"
  shows "Get (query r) key = [] \<or> is_base10_integer (Get (query r) key)"
  using assms param_invalid [of r key d] by auto

lemma not_base10_abc: "\<not> is_base10_integer ''abc''" "\<not> is_base10_integer []"
  by (simp_all add: is_base10_integer_def is_digit_def)

section \<open>The claims\<close>

subsection \<open>C1\<close>




subsection \<open>C2\<close>

text \<open>
  C2, as amended: when \<open>size\<close> resolves to \<open>S \<ge> 0\<close> and \<open>buffer\<close> to \<open>B \<ge> 1\<close>, the
  handler returns, every read asks for \<open>min remaining B\<close> bytes and every write passes
  a slice of the size of its read. When the handler completes (as it does when the file
  opens, the buffer is allocated and every read and write succeeds in full), the number of
  reads and of writes is the ceiling of \<open>S / B\<close>, every chunk but the last has \<open>B\<close> bytes,
  and the last has \<open>S mod B\<close> bytes, or \<open>B\<close> when that is zero.
\<close>

theorem chunk_operations:
  assumes "param r ''size'' defaultDataSize = Inr S" and "0 \<le> S"
    and "param r ''buffer'' defaultBufferSize = Inr B" and "1 \<le> B"
  shows "\<exists>out s. ServeHTTP e r = Some (out, s) \<and>
           (\<forall>i<length (reads s). reads s ! i = min (pending s ! i) B) \<and>
           (\<forall>i<length (writes s). int (length (writes s ! i)) = reads s ! i) \<and>
           (open_ok e \<and> B \<le> maxAlloc \<and> io_ok e \<longrightarrow> out = Completed) \<and>
           (out = Completed \<longrightarrow>
              int (length (reads s)) = \<lceil>real_of_int S / real_of_int B\<rceil> \<and>
              length (writes s) = length (reads s) \<and>
              (\<forall>i. Suc i < length (reads s) \<longrightarrow> reads s ! i = B) \<and>
              (reads s \<noteq> [] \<longrightarrow> last (reads s) = (if S mod B = 0 then B else S mod B)))"
proof (cases rule: ServeHTTP_cases [OF assms(1,3,4), of e, case_names noopen panic loop])
  case noopen
  then show ?thesis
    by (simp add: start_def)
next
  case panic
  then show ?thesis
    by (simp add: entered_def)
next
  case (loop out s xs)
  have a: "\<forall>i<length (reads s). reads s ! i = min (pending s ! i) B"
    using countdown_nth [OF loop(5)] loop(4) by simp
  have b: "\<forall>i<length (writes s). int (length (writes s ! i)) = reads s ! i"
  proof (intro allI impI)
    fix i assume i: "i < length (writes s)"
    then have "int (length (writes s ! i)) = map (\<lambda>w. int (length w)) (writes s) ! i"
      by simp
    also have "\<dots> = take (length (writes s)) (reads s) ! i"
      by (simp only: loop(6))
    also from i have "\<dots> = reads s ! i"
      by simp
    finally show "int (length (writes s ! i)) = reads s ! i" .
  qed
  have c: "open_ok e \<and> B \<le> maxAlloc \<and> io_ok e \<longrightarrow> out = Completed"
    using ServeHTTP_ok [OF assms(1,3) _ assms(4), of e] loop(3) by auto
  have d: "out = Completed \<longrightarrow>
              int (length (reads s)) = \<lceil>real_of_int S / real_of_int B\<rceil> \<and>
              length (writes s) = length (reads s) \<and>
              (\<forall>i. Suc i < length (reads s) \<longrightarrow> reads s ! i = B) \<and>
              (reads s \<noteq> [] \<longrightarrow> last (reads s) = (if S mod B = 0 then B else S mod B))"
  proof
    assume "out = Completed"
    with loop(7) have f: "last (S # xs) \<le> 0" "length xs = length (reads s)"
      "length (writes s) = length (reads s)"
      by simp_all
    from countdown_chunks [OF assms(4) loop(5) f(2,1)] have ch: "reads s = chunks B S" .
    show "int (length (reads s)) = \<lceil>real_of_int S / real_of_int B\<rceil> \<and>
              length (writes s) = length (reads s) \<and>
              (\<forall>i. Suc i < length (reads s) \<longrightarrow> reads s ! i = B) \<and>
              (reads s \<noteq> [] \<longrightarrow> last (reads s) = (if S mod B = 0 then B else S mod B))"
      unfolding ch using f(3) ch assms(2,4)
      by (simp add: length_chunks chunks_full chunks_last)
  qed
  from loop(3) a b c d show ?thesis
    by blast
qed

theorem chunk_operations_witness:
  "param (req ''5'' ''2'') ''size'' defaultDataSize = Inr 5 \<and> (0::int) \<le> 5 \<and>
   param (req ''5'' ''2'') ''buffer'' defaultBufferSize = Inr 2 \<and> (1::int) \<le> 2 \<and>
   (\<exists>s. ServeHTTP env_ok (req ''5'' ''2'') = Some (Completed, s) \<and>
      length (reads s) = 3 \<and> length (writes s) = 3 \<and>
      reads s ! 0 = min (pending s ! 0) 2 \<and> int (length (writes s ! 0)) = reads s ! 0 \<and>
      reads s ! 0 = 2 \<and> reads s ! 1 = 2 \<and> last (reads s) = 1)"
proof -
  have h1: "param (req ''5'' ''2'') ''size'' defaultDataSize = Inr 5"
    by (simp add: param_req ParseInt_examples)
  have h2: "param (req ''5'' ''2'') ''buffer'' defaultBufferSize = Inr 2"
    by (simp add: param_req ParseInt_examples)
  have h3: "(0::int) \<le> 5" "(1::int) \<le> 2"
    by simp_all
  have h4: "open_ok env_ok \<and> (2::int) \<le> maxAlloc \<and> io_ok env_ok"
    by (simp add: io_ok_env_ok maxAlloc_def)
  from chunk_operations [OF h1 h3(1) h2 h3(2), of env_ok] obtain out s where
    r: "ServeHTTP env_ok (req ''5'' ''2'') = Some (out, s)"
      "\<forall>i<length (reads s). reads s ! i = min (pending s ! i) 2"
      "\<forall>i<length (writes s). int (length (writes s ! i)) = reads s ! i"
      "open_ok env_ok \<and> (2::int) \<le> maxAlloc \<and> io_ok env_ok \<longrightarrow> out = Completed"
      "out = Completed \<longrightarrow>
              int (length (reads s)) = \<lceil>real_of_int 5 / real_of_int 2\<rceil> \<and>
              length (writes s) = length (reads s) \<and>
              (\<forall>i. Suc i < length (reads s) \<longrightarrow> reads s ! i = 2) \<and>
              (reads s \<noteq> [] \<longrightarrow> last (reads s) = (if (5::int) mod 2 = 0 then 2 else 5 mod 2))"
    by blast
  from r(4) h4 have out: "out = Completed"
    by simp
  with r(5) have n: "length (reads s) = 3" "length (writes s) = 3"
    "\<forall>i. Suc i < length (reads s) \<longrightarrow> reads s ! i = 2"
    "reads s \<noteq> [] \<longrightarrow> last (reads s) = 1"
    by simp_all
  from n(1) have "reads s \<noteq> []"
    by auto
  with n r(1,2,3) out h1 h2 show ?thesis
    by simp
qed

theorem chunk_operations_counterexample:
  "param (req ''5'' ''2'') ''size'' defaultDataSize = Inr 5 \<and>
   param (req ''5'' ''2'') ''buffer'' defaultBufferSize = Inr 2 \<and>
   ServeHTTP (env_badread 0) (req ''5'' ''2'') =
     Some (ReadFailure,
       \<lparr>status = Some 200, headers = [(''Content-Type'', ''application/octet-stream'')],
        body = [], opened = 1, closed = 1, reads = [2], writes = [], pending = [5]\<rparr>) \<and>
   \<lceil>real_of_int 5 / real_of_int 2\<rceil> = (3::int)"
proof -
  have h1: "param (req ''5'' ''2'') ''size'' defaultDataSize = Inr 5"
    by (simp add: param_req ParseInt_examples)
  have h2: "param (req ''5'' ''2'') ''buffer'' defaultBufferSize = Inr 2"
    by (simp add: param_req ParseInt_examples)
  have o: "open_ok (env_badread 0)"
    by (simp add: env_badread_def env_ok_def)
  have it: "iteration (env_badread 0) 2 [0, 0] 5 (entered 5) =
      Inl (ReadFailure, (entered 5)\<lparr>reads := [2]\<rparr>)"
    by (simp add: iteration_def file_Read_def env_badread_def env_ok_def entered_def Let_def)
  have "copy_loop (env_badread 0) 2 [0, 0] 5 (entered 5) =
      Some (ReadFailure, (entered 5)\<lparr>reads := [2]\<rparr>)"
    by (rule copy_loop_Inl [OF _ it]) simp
  with ServeHTTP_entered [OF h1 h2 o] h1 h2 show ?thesis
    by (simp add: maxAlloc_def replicate_byte_2 Close_def entered_def)
qed

subsection \<open>C3\<close>

text \<open>
  C3, as amended: when the \<open>size\<close> or the \<open>buffer\<close> parameter has a value that is not
  empty and is not a base-10 integer, the handler answers 400, writes no body and opens
  no file.
\<close>

theorem invalid_parameter_400:
  assumes "(Get (query r) ''size'' \<noteq> [] \<and> \<not> is_base10_integer (Get (query r) ''size'')) \<or>
     (Get (query r) ''buffer'' \<noteq> [] \<and> \<not> is_base10_integer (Get (query r) ''buffer''))"
  shows "\<exists>out s. ServeHTTP e r = Some (out, s) \<and>
           (out = InvalidSizeParameter \<or> out = InvalidBufferParameter) \<and>
           status s = Some 400 \<and> body s = [] \<and> writes s = [] \<and> reads s = [] \<and>
           opened s = 0"
proof (cases "param r ''size'' defaultDataSize")
  case (Inl x)
  then show ?thesis
    by (simp add: ServeHTTP_bad_size start_def)
next
  case (Inr S)
  from param_valid [OF Inr] assms
  have "Get (query r) ''buffer'' \<noteq> [] \<and> \<not> is_base10_integer (Get (query r) ''buffer'')"
    by blast
  then obtain x where "param r ''buffer'' defaultBufferSize = Inl x"
    using param_invalid [of r "''buffer''" defaultBufferSize] by blast
  with Inr show ?thesis
    by (simp add: ServeHTTP_bad_buffer start_def)
qed

theorem invalid_parameter_400_witness:
  "((Get (query (req ''abc'' ''2'')) ''size'' \<noteq> [] \<and>
     \<not> is_base10_integer (Get (query (req ''abc'' ''2'')) ''size'')) \<or>
    (Get (query (req ''abc'' ''2'')) ''buffer'' \<noteq> [] \<and>
     \<not> is_base10_integer (Get (query (req ''abc'' ''2'')) ''buffer''))) \<and>
   (\<exists>out s. ServeHTTP env_ok (req ''abc'' ''2'') = Some (out, s) \<and>
      status s = Some 400 \<and> body s = [] \<and> writes s = [] \<and> opened s = 0)"
proof -
  have h: "(Get (query (req ''abc'' ''2'')) ''size'' \<noteq> [] \<and>
     \<not> is_base10_integer (Get (query (req ''abc'' ''2'')) ''size'')) \<or>
    (Get (query (req ''abc'' ''2'')) ''buffer'' \<noteq> [] \<and>
     \<not> is_base10_integer (Get (query (req ''abc'' ''2'')) ''buffer''))"
    by (simp add: Get_req not_base10_abc)
  from invalid_parameter_400 [OF h, of env_ok] h show ?thesis
    by blast
qed

theorem invalid_parameter_counterexample:
  "present (req ''5'' '''') ''buffer'' \<and>
   \<not> is_base10_integer (Get (query (req ''5'' '''')) ''buffer'') \<and>
   map_option fst (ServeHTTP env_ok (req ''5'' '''')) = Some Completed \<and>
   map_option (status \<circ> snd) (ServeHTTP env_ok (req ''5'' '''')) = Some (Some 200) \<and>
   map_option (length \<circ> body \<circ> snd) (ServeHTTP env_ok (req ''5'' '''')) = Some 5"
proof -
  have h1: "param (req ''5'' '''') ''size'' defaultDataSize = Inr 5"
    by (simp add: param_req ParseInt_examples)
  have h2: "param (req ''5'' '''') ''buffer'' defaultBufferSize = Inr defaultBufferSize"
    by (simp add: param_req)
  have h3: "(0::int) \<le> 5" "1 \<le> defaultBufferSize" "defaultBufferSize \<le> maxAlloc"
    by (simp_all add: defaultBufferSize_def maxAlloc_def)
  have p: "present (req ''5'' '''') ''buffer''"
    by (simp add: present_def req_def)
  from ServeHTTP_ok [OF h1 h2 io_ok_env_ok(2) h3(2,3) io_ok_env_ok(1)] obtain s where
    s: "ServeHTTP env_ok (req ''5'' '''') = Some (Completed, s)" ..
  with ServeHTTP_loop [OF h1 h2 io_ok_env_ok(2) h3(2,3)]
  have "status s = Some 200" "int (length (body s)) = 5"
    by auto
  with s p show ?thesis
    by (simp add: Get_req not_base10_abc)
qed

subsection \<open>C4\<close>

text \<open>
  C4: when the handler has entered the loop (both parameters resolve, with
  \<open>1 \<le> B\<close> and \<open>B\<close> no larger than the largest allocation, and the file opens), the first
  \<open>k - 1\<close> reads and writes succeed in full and the \<open>k\<close>-th read returns an error or
  fewer bytes than asked for, the handler returns with that failure after \<open>k\<close> reads
  and \<open>k - 1\<close> writes, each of a whole chunk of \<open>B\<close> bytes; the body is these chunks and
  nothing else, and the file is closed.
\<close>

theorem read_failure_aborts:
  assumes "param r ''size'' defaultDataSize = Inr S"
    and "param r ''buffer'' defaultBufferSize = Inr B"
    and "open_ok e" and "1 \<le> B" and "B \<le> maxAlloc"
    and "1 \<le> k" and "int (k - 1) * B < S"
    and "\<forall>i<k - 1. read_full e i (nat B)"
    and "\<forall>i<k - 1. \<forall>p. length p = nat B \<longrightarrow> write_full e i p"
    and "\<not> read_full e (k - 1) (nat (min (S - int (k - 1) * B) B))"
  shows "\<exists>out s. ServeHTTP e r = Some (out, s) \<and> (out = ReadFailure \<or> out = ShortRead) \<and>
           length (reads s) = k \<and> length (writes s) = k - 1 \<and>
           (\<forall>w\<in>set (writes s). int (length w) = B) \<and> body s = concat (writes s) \<and>
           status s = Some 200 \<and> opened s = 1 \<and> closed s = 1"
proof -
  from assms(4) have len: "int (length (replicate (nat B) (0::byte))) = B"
    by simp
  have rd: "\<forall>i<k - 1. read_full e (length (reads (entered S)) + i) (nat B)"
    using assms(8) by (simp add: entered_def)
  have wr: "\<forall>i<k - 1. \<forall>p. length p = nat B \<longrightarrow>
      write_full e (length (writes (entered S)) + i) p"
    using assms(9) by (simp add: entered_def)
  have bad: "\<not> read_full e (length (reads (entered S)) + (k - 1))
      (nat (min (S - int (k - 1) * B) B))"
    using assms(10) by (simp add: entered_def)
  from copy_loop_read_fails [OF assms(4) len assms(7) rd wr bad] obtain out s' ws where
    l: "copy_loop e B (replicate (nat B) 0) S (entered S) = Some (out, s')"
      "out = ReadFailure \<or> out = ShortRead"
      "length (reads s') = length (reads (entered S)) + (k - 1) + 1"
      "writes s' = writes (entered S) @ ws" "length ws = k - 1"
      "\<forall>w\<in>set ws. int (length w) = B"
      "body s' = body (entered S) @ concat ws"
      "status s' = status (entered S)" "headers s' = headers (entered S)"
      "opened s' = opened (entered S)" "closed s' = closed (entered S)"
    by blast
  from assms(4,5) have "0 \<le> B"
    by simp
  from ServeHTTP_entered [OF assms(1,2,3) this assms(5)] l(1)
  have "ServeHTTP e r = Some (out, s'\<lparr>closed := closed s' + 1\<rparr>)"
    by (simp add: Close_def)
  with l(2-11) assms(6) show ?thesis
    by - (rule exI [of _ out], rule exI [of _ "s'\<lparr>closed := closed s' + 1\<rparr>"],
        auto simp: entered_def)
qed

theorem read_failure_aborts_witness:
  "param (req ''9'' ''2'') ''size'' defaultDataSize = Inr 9 \<and>
   param (req ''9'' ''2'') ''buffer'' defaultBufferSize = Inr 2 \<and>
   open_ok (env_badread 2) \<and> (1::int) \<le> 2 \<and> (2::int) \<le> maxAlloc \<and> (1::nat) \<le> 3 \<and>
   int (3 - 1) * 2 < 9 \<and>
   read_full (env_badread 2) 0 (nat 2) \<and> read_full (env_badread 2) 1 (nat 2) \<and>
   write_full (env_badread 2) 0 [7, 7] \<and> write_full (env_badread 2) 1 [7, 7] \<and>
   \<not> read_full (env_badread 2) (3 - 1) (nat (min (9 - int (3 - 1) * 2) 2)) \<and>
   (\<exists>out s. ServeHTTP (env_badread 2) (req ''9'' ''2'') = Some (out, s) \<and>
      (out = ReadFailure \<or> out = ShortRead) \<and> length (reads s) = 3 \<and>
      length (writes s) = 2 \<and> body s = concat (writes s) \<and> length (body s) = 4 \<and>
      status s = Some 200 \<and> opened s = 1 \<and> closed s = 1)"
proof -
  have h1: "param (req ''9'' ''2'') ''size'' defaultDataSize = Inr 9"
    by (simp add: param_req ParseInt_eval)
  have h2: "param (req ''9'' ''2'') ''buffer'' defaultBufferSize = Inr 2"
    by (simp add: param_req ParseInt_examples)
  have h3: "open_ok (env_badread 2)" "(1::int) \<le> 2" "(2::int) \<le> maxAlloc" "(1::nat) \<le> 3"
    "int (3 - 1) * 2 < 9"
    by (simp_all add: env_badread_io maxAlloc_def)
  have h4: "\<forall>i<3 - 1. read_full (env_badread 2) i (nat 2)"
    by (simp add: env_badread_io)
  have h5: "\<forall>i<3 - 1. \<forall>p. length p = nat 2 \<longrightarrow> write_full (env_badread 2) i p"
    by (simp add: env_badread_io)
  have h6: "\<not> read_full (env_badread 2) (3 - 1) (nat (min (9 - int (3 - 1) * 2) 2))"
    by (simp add: env_badread_io)
  from read_failure_aborts [OF h1 h2 h3 h4 h5 h6] obtain out s where
    r: "ServeHTTP (env_badread 2) (req ''9'' ''2'') = Some (out, s)"
      "out = ReadFailure \<or> out = ShortRead" "length (reads s) = 3" "length (writes s) = 3 - 1"
      "\<forall>w\<in>set (writes s). int (length w) = 2" "body s = concat (writes s)"
      "status s = Some 200" "opened s = 1" "closed s = 1"
    by blast
  from r(4) obtain a b where ab: "writes s = [a, b]"
    by (cases "writes s"; cases "tl (writes s)") auto
  with r(5,6) have "length (body s) = 4"
    by simp
  with r h1 h2 h3 h6 show ?thesis
    by (simp add: env_badread_io)
qed

subsection \<open>C5\<close>

text \<open>
  C5: when both parameters are absent or parse, and the file does not open, the handler
  answers 500 with an empty body and makes no read and no write.
\<close>

theorem open_failure_500:
  assumes "param r ''size'' defaultDataSize = Inr S"
    and "param r ''buffer'' defaultBufferSize = Inr B"
    and "\<not> open_ok e"
  shows "\<exists>s. ServeHTTP e r = Some (SourceUnavailable, s) \<and> status s = Some 500 \<and>
           body s = [] \<and> reads s = [] \<and> writes s = [] \<and> opened s = 0"
  using ServeHTTP_noopen [OF assms] by (simp add: start_def)

theorem open_failure_500_witness:
  "param (req ''5'' ''2'') ''size'' defaultDataSize = Inr 5 \<and>
   param (req ''5'' ''2'') ''buffer'' defaultBufferSize = Inr 2 \<and>
   \<not> open_ok env_noopen \<and>
   (\<exists>s. ServeHTTP env_noopen (req ''5'' ''2'') = Some (SourceUnavailable, s) \<and>
      status s = Some 500 \<and> body s = [] \<and> reads s = [] \<and> writes s = [] \<and> opened s = 0)"
proof -
  have h1: "param (req ''5'' ''2'') ''size'' defaultDataSize = Inr 5"
    by (simp add: param_req ParseInt_examples)
  have h2: "param (req ''5'' ''2'') ''buffer'' defaultBufferSize = Inr 2"
    by (simp add: param_req ParseInt_examples)
  have h3: "\<not> open_ok env_noopen"
    by (simp add: env_noopen_def)
  from open_failure_500 [OF h1 h2 h3] h1 h2 h3 show ?thesis
    by blast
qed

subsection \<open>C6\<close>

text \<open>
  C6: when \<open>size\<close> resolves to \<open>S \<ge> 0\<close> and \<open>buffer\<close> to \<open>B \<ge> 1\<close>, the handler
  returns, and the values of \<open>pendingSize\<close> start with \<open>S\<close> (the variable exists when
  the file has opened and the buffer is allocated), go down in every pass by the size of
  the chunk of that pass, which is positive, are never negative, and end with 0 when the
  handler completes.
\<close>

theorem remaining_counter:
  assumes "param r ''size'' defaultDataSize = Inr S" and "0 \<le> S"
    and "param r ''buffer'' defaultBufferSize = Inr B" and "1 \<le> B"
  shows "\<exists>out s. ServeHTTP e r = Some (out, s) \<and>
           (open_ok e \<and> B \<le> maxAlloc \<longrightarrow> pending s \<noteq> []) \<and>
           (pending s \<noteq> [] \<longrightarrow> hd (pending s) = S) \<and>
           (\<forall>i. Suc i < length (pending s) \<longrightarrow>
              i < length (reads s) \<and> 0 < reads s ! i \<and>
              pending s ! Suc i = pending s ! i - reads s ! i \<and>
              pending s ! Suc i < pending s ! i) \<and>
           (\<forall>p\<in>set (pending s). 0 \<le> p) \<and>
           (out = Completed \<longrightarrow> pending s \<noteq> [] \<and> last (pending s) = 0)"
proof (cases rule: ServeHTTP_cases [OF assms(1,3,4), of e, case_names noopen panic loop])
  case noopen
  then show ?thesis
    by (simp add: start_def)
next
  case panic
  then show ?thesis
    by (simp add: entered_def)
next
  case (loop out s xs)
  from loop(5) have cd: "countdown B (pending s) (reads s)"
    by (simp only: loop(4))
  have a: "\<forall>i. Suc i < length (pending s) \<longrightarrow>
              i < length (reads s) \<and> 0 < reads s ! i \<and>
              pending s ! Suc i = pending s ! i - reads s ! i \<and>
              pending s ! Suc i < pending s ! i"
    using countdown_next [OF cd] countdown_less [OF assms(4) cd] by blast
  from countdown_nonneg [OF loop(5) assms(2)] assms(2) loop(4)
  have b: "\<forall>p\<in>set (pending s). 0 \<le> p"
    by simp
  have c: "out = Completed \<longrightarrow> pending s \<noteq> [] \<and> last (pending s) = 0"
  proof
    assume "out = Completed"
    with loop(7) have "last (pending s) \<le> 0"
      by (simp only: loop(4))
    moreover from loop(4) have "pending s \<noteq> []"
      by simp
    moreover from this b have "0 \<le> last (pending s)"
      by simp
    ultimately show "pending s \<noteq> [] \<and> last (pending s) = 0"
      by simp
  qed
  from loop(3,4) a b c show ?thesis
    by - (rule exI [of _ out], rule exI [of _ s], simp)
qed

theorem remaining_counter_witness:
  "param (req ''5'' ''2'') ''size'' defaultDataSize = Inr 5 \<and> (0::int) \<le> 5 \<and>
   param (req ''5'' ''2'') ''buffer'' defaultBufferSize = Inr 2 \<and> (1::int) \<le> 2 \<and>
   (\<exists>s. ServeHTTP env_ok (req ''5'' ''2'') = Some (Completed, s) \<and>
      pending s \<noteq> [] \<and> hd (pending s) = 5 \<and> last (pending s) = 0)"
proof -
  have h1: "param (req ''5'' ''2'') ''size'' defaultDataSize = Inr 5"
    by (simp add: param_req ParseInt_examples)
  have h2: "param (req ''5'' ''2'') ''buffer'' defaultBufferSize = Inr 2"
    by (simp add: param_req ParseInt_examples)
  have h3: "(0::int) \<le> 5" "(1::int) \<le> 2"
    by simp_all
  have h4: "open_ok env_ok" "(2::int) \<le> maxAlloc" "io_ok env_ok"
    by (simp_all add: io_ok_env_ok maxAlloc_def)
  from ServeHTTP_ok [OF h1 h2 h4(1) h3(2) h4(2,3)] obtain s where
    s: "ServeHTTP env_ok (req ''5'' ''2'') = Some (Completed, s)" ..
  with remaining_counter [OF h1 h3(1) h2 h3(2), of env_ok] h1 h2 h4 show ?thesis
    by auto
qed

subsection \<open>C7\<close>




subsection \<open>C8\<close>

text \<open>
  C8: the loop returns whenever \<open>bufferSize \<ge> 1\<close>. When the \<open>buffer\<close> parameter parses
  to 0 and \<open>size\<close> resolves to \<open>S > 0\<close>, the buffer is empty, every pass of the loop
  reads 0 bytes and writes 0 bytes without error and leaves \<open>pendingSize\<close> as it was,
  the loop never ends, and so the handler, once the file is open, never returns.
\<close>

theorem zero_buffer_never_ends:
  assumes "ParseInt (Get (query r) ''buffer'') = Inr 0"
    and "param r ''size'' defaultDataSize = Inr S" and "0 < S"
  shows "(\<forall>B buf P s. 1 \<le> B \<longrightarrow> copy_loop e B buf P s \<noteq> None) \<and>
         makeslice 0 = Some [] \<and>
         (\<forall>P s. 0 < P \<longrightarrow>
            iteration e 0 [] P s =
              Inr ([], P, s\<lparr>reads := reads s @ [0], writes := writes s @ [[]],
                              body := body s, pending := pending s @ [P]\<rparr>)) \<and>
         (\<forall>s. copy_loop e 0 [] S s = None) \<and>
         (open_ok e \<longrightarrow> ServeHTTP e r = None)"
proof -
  from assms(1) have b: "param r ''buffer'' defaultBufferSize = Inr 0"
    by (rule param_parsed)
  have "open_ok e \<longrightarrow> ServeHTTP e r = None"
  proof
    assume "open_ok e"
    with assms(2) b have "ServeHTTP e r =
        map_option Close (copy_loop e 0 (replicate (nat 0) 0) S (entered S))"
      by (intro ServeHTTP_entered) (simp_all add: maxAlloc_def)
    with assms(3) show "ServeHTTP e r = None"
      by (simp add: copy_loop_zero)
  qed
  with assms(3) show ?thesis
    by (simp add: copy_loop_returns iteration_zero copy_loop_zero makeslice_def maxAlloc_def)
qed

theorem zero_buffer_never_ends_witness:
  "ParseInt (Get (query (req ''5'' ''0'')) ''buffer'') = Inr 0 \<and>
   param (req ''5'' ''0'') ''size'' defaultDataSize = Inr 5 \<and> (0::int) < 5 \<and>
   open_ok env_ok \<and> ServeHTTP env_ok (req ''5'' ''0'') = None \<and>
   copy_loop env_ok 0 [] 5 (entered 5) = None \<and>
   iteration env_ok 0 [] 5 (entered 5) =
     Inr ([], 5, (entered 5)\<lparr>reads := [0], writes := [[]], pending := [5, 5]\<rparr>)"
proof -
  have h1: "ParseInt (Get (query (req ''5'' ''0'')) ''buffer'') = Inr 0"
    by (simp add: Get_req ParseInt_examples)
  have h2: "param (req ''5'' ''0'') ''size'' defaultDataSize = Inr 5"
    by (simp add: param_req ParseInt_examples)
  have h3: "(0::int) < 5"
    by simp
  from zero_buffer_never_ends [OF h1 h2 h3, of env_ok] h1 h2 io_ok_env_ok(2) show ?thesis
    by (simp add: entered_def)
qed

subsection \<open>C9\<close>

text \<open>
  C9: when the \<open>buffer\<close> parameter parses as a negative integer, every run in which the
  file was opened has sent the status 200 and the content type, has panicked at the
  allocation of the buffer instead of completing, has written no body, and has closed the
  file. The file is opened when it can be and the \<open>size\<close> parameter is absent or parses.
\<close>

theorem negative_buffer_panics:
  assumes "ParseInt (Get (query r) ''buffer'') = Inr B" and "B < 0"
  shows "\<exists>out s. ServeHTTP e r = Some (out, s) \<and>
           (open_ok e \<and> (\<exists>S. param r ''size'' defaultDataSize = Inr S) \<longrightarrow> opened s = 1) \<and>
           (opened s = 1 \<longrightarrow>
              status s = Some 200 \<and>
              headers s = [(''Content-Type'', ''application/octet-stream'')] \<and>
              out = Panicked \<and> body s = [] \<and> reads s = [] \<and> writes s = [] \<and>
              closed s = 1)"
proof -
  from assms(1) have b: "param r ''buffer'' defaultBufferSize = Inr B"
    by (rule param_parsed)
  show ?thesis
  proof (cases "param r ''size'' defaultDataSize")
    case (Inl x)
    then show ?thesis
      by (simp add: ServeHTTP_bad_size start_def)
  next
    case (Inr S)
    show ?thesis
    proof (cases "open_ok e")
      case True
      with Inr b assms(2) show ?thesis
        by (simp add: ServeHTTP_panic entered_def)
    next
      case False
      with Inr b show ?thesis
        by (simp add: ServeHTTP_noopen start_def)
    qed
  qed
qed

theorem negative_buffer_panics_witness:
  "ParseInt (Get (query (req ''5'' ''-2'')) ''buffer'') = Inr (- 2) \<and> (- 2 :: int) < 0 \<and>
   (\<exists>out s. ServeHTTP env_ok (req ''5'' ''-2'') = Some (out, s) \<and> opened s = 1 \<and>
      status s = Some 200 \<and> out = Panicked \<and> closed s = 1)"
proof -
  have h1: "ParseInt (Get (query (req ''5'' ''-2'')) ''buffer'') = Inr (- 2)"
    by (simp add: Get_req ParseInt_examples)
  have h2: "(- 2 :: int) < 0"
    by simp
  have "open_ok env_ok \<and> (\<exists>S. param (req ''5'' ''-2'') ''size'' defaultDataSize = Inr S)"
    by (simp add: env_ok_def param_req ParseInt_examples)
  with negative_buffer_panics [OF h1 h2, of env_ok] h1 show ?thesis
    by auto
qed

subsection \<open>C10\<close>




end
